theory Spec2Isabelle
  imports Complex_Main "HOL-Library.Log_Nat" "HOL-Library.Word"
begin

section \<open>Python floats\<close>

text \<open>
  \<^verbatim>\<open>optimize_logo.py\<close> computes file sizes in MiB and scaled image dimensions with
  Python floats, which are IEEE 754 binary64 numbers. A float is modelled by the rational
  it denotes, or one of the two infinities; the program never produces a NaN. Every
  arithmetic operation is the exact rational operation followed by \<open>round_binary64\<close>:
  round to nearest, ties to even, 53 significant bits, exponents from \<open>-1074\<close>
  (subnormal numbers) up to overflow at \<open>2 ^ 1024\<close>.
\<close>

datatype pyfloat = Fin rat | PInf | NInf

text \<open>Round to the nearest integer, a tie going to the even neighbour.\<close>

definition rne :: "rat \<Rightarrow> int" where
  "rne t = (let f = \<lfloor>t\<rfloor>; d = t - of_int f
            in if d < 1 / 2 then f
               else if 1 / 2 < d then f + 1
               else if even f then f else f + 1)"

text \<open>The binary exponent of a positive rational: \<open>2 powi binade x \<le> x < 2 powi (binade x + 1)\<close>.\<close>

definition binade :: "rat \<Rightarrow> int" where
  "binade x = (case quotient_of x of (a, b) \<Rightarrow>
                 let d = bitlen a - bitlen b
                 in if 2 powi d \<le> x then d else d - 1)"

text \<open>The exponent of the last place of the binary64 numbers around a positive rational.\<close>

definition ulp_exp :: "rat \<Rightarrow> int" where
  "ulp_exp a = max (binade a - 52) (- 1074)"

text \<open>A rounded magnitude from here on is too large for a finite binary64 number.\<close>

definition binary64_overflow :: rat where
  "binary64_overflow = 2 ^ 1024"

definition round_binary64 :: "rat \<Rightarrow> pyfloat" where
  "round_binary64 x =
     (if x = 0 then Fin 0
      else let a = \<bar>x\<bar>;
               y = of_int (rne (a / 2 powi ulp_exp a)) * 2 powi ulp_exp a
           in if binary64_overflow \<le> y then (if 0 < x then PInf else NInf)
              else Fin (sgn x * y))"

text \<open>The exceptions the script can raise; none of them is caught anywhere in it.\<close>

datatype error =
    FileNotFoundError
  | UnidentifiedImageError
  | OSError
  | ValueError
  | OverflowError
  | ZeroDivisionError

text \<open>\<^verbatim>\<open>float(i)\<close>, the implicit conversion of an int operand: correctly rounded, and
  an \<^verbatim>\<open>OverflowError\<close> when the int is too large for a float.\<close>

definition float_of_int :: "int \<Rightarrow> error + rat" where
  "float_of_int i =
     (case round_binary64 (of_int i) of Fin y \<Rightarrow> Inr y | _ \<Rightarrow> Inl OverflowError)"

text \<open>\<^verbatim>\<open>a / b\<close> on two ints: the correctly rounded quotient.\<close>

definition int_truediv :: "int \<Rightarrow> int \<Rightarrow> error + pyfloat" where
  "int_truediv a b =
     (if b = 0 then Inl ZeroDivisionError
      else case round_binary64 (of_int a / of_int b) of
             Fin y \<Rightarrow> Inr (Fin y)
           | _ \<Rightarrow> Inl OverflowError)"

text \<open>\<^verbatim>\<open>x / b\<close> on a float and an int: the int is converted, then IEEE division.\<close>

definition float_truediv_int :: "pyfloat \<Rightarrow> int \<Rightarrow> error + pyfloat" where
  "float_truediv_int x b =
     (case float_of_int b of
        Inl e \<Rightarrow> Inl e
      | Inr d \<Rightarrow>
          if d = 0 then Inl ZeroDivisionError
          else Inr (case x of
                      Fin a \<Rightarrow> round_binary64 (a / d)
                    | PInf \<Rightarrow> (if 0 < d then PInf else NInf)
                    | NInf \<Rightarrow> (if 0 < d then NInf else PInf)))"

text \<open>\<^verbatim>\<open>i * c\<close> on an int and a finite float: the int is converted, then IEEE
  multiplication.\<close>

definition int_mul_float :: "int \<Rightarrow> rat \<Rightarrow> error + pyfloat" where
  "int_mul_float i c =
     (case float_of_int i of
        Inl e \<Rightarrow> Inl e
      | Inr a \<Rightarrow> Inr (round_binary64 (a * c)))"

text \<open>\<^verbatim>\<open>int(x)\<close>: truncation towards zero; an infinity raises \<^verbatim>\<open>OverflowError\<close>.\<close>

definition int_of_float :: "pyfloat \<Rightarrow> error + int" where
  "int_of_float x =
     (case x of
        Fin a \<Rightarrow> Inr (if 0 \<le> a then \<lfloor>a\<rfloor> else \<lceil>a\<rceil>)
      | _ \<Rightarrow> Inl OverflowError)"

text \<open>\<^verbatim>\<open>x >= y\<close> on floats.\<close>

fun float_ge :: "pyfloat \<Rightarrow> pyfloat \<Rightarrow> bool" where
  "float_ge (Fin a) (Fin b) = (b \<le> a)"
| "float_ge PInf _ = True"
| "float_ge _ NInf = True"
| "float_ge _ _ = False"

text \<open>The value of the literal \<^verbatim>\<open>0.9\<close>: the binary64 number nearest to nine tenths
  (\<^verbatim>\<open>0x1.ccccccccccccdp-1\<close>), which lies slightly above it.\<close>

definition nine_tenths :: rat where
  "nine_tenths = 8106479329266893 / 2 ^ 53"

section \<open>Images, files and the calls the script makes\<close>

type_synonym path = string
type_synonym bytes = "8 word list"

text \<open>A decoded PIL image: \<^verbatim>\<open>img.width\<close>, \<^verbatim>\<open>img.height\<close>, \<^verbatim>\<open>img.mode\<close> and the
  pixel buffer.\<close>

record image =
  width :: int
  height :: int
  mode :: string
  pixels :: bytes

text \<open>\<^verbatim>\<open>img.size\<close>\<close>

definition size_of :: "image \<Rightarrow> int \<times> int" where
  "size_of img = (width img, height img)"

text \<open>
  What the script does not define itself is a parameter of the model: the PNG decoder
  behind \<^verbatim>\<open>Image.open\<close>, the PNG encoder behind \<^verbatim>\<open>img.save\<close> (given the
  \<^verbatim>\<open>optimize\<close> flag and the \<^verbatim>\<open>quality\<close> number), the Lanczos filter behind
  \<^verbatim>\<open>img.resize\<close>, and whether the operating system lets a path be opened for writing
  at the moment of the \<open>k\<close>-th library call.
\<close>

record env =
  decode :: "bytes \<Rightarrow> image option"
  encode :: "image \<Rightarrow> bool \<Rightarrow> nat \<Rightarrow> bytes"
  lanczos :: "image \<Rightarrow> int \<times> int \<Rightarrow> bytes"
  writable :: "nat \<Rightarrow> path \<Rightarrow> bool"

text \<open>The library calls, recorded in the order they are made, each with the exception
  it raised, if any.\<close>

datatype call =
    ImageOpen path
  | Save image path bool nat
  | GetSize path
  | Resize image "int \<times> int"
  | Copy path path

text \<open>The lines printed; a size is kept as the float that is printed, not as its
  two-decimal rendering.\<close>

datatype line =
    OriginalSize pyfloat
  | OriginalDimensions "int \<times> int"
  | OriginalMode string
  | OptimizedSize pyfloat
  | ResizedTo "int \<times> int" pyfloat
  | SavedTo

record world =
  files :: "path \<rightharpoonup> bytes"
  stdout :: "line list"
  calls :: "(call \<times> error option) list"

text \<open>The world a run starts in: the files present, nothing printed, nothing called.\<close>

definition initial :: "(path \<rightharpoonup> bytes) \<Rightarrow> world" where
  "initial fs = \<lparr>files = fs, stdout = [], calls = []\<rparr>"

text \<open>A statement runs in a world and either raises or returns a value; in both cases
  the world is left as the statement made it.\<close>

type_synonym 'a action = "world \<Rightarrow> (error + 'a) \<times> world"

definition return :: "'a \<Rightarrow> 'a action" where
  "return a w = (Inr a, w)"

definition raise :: "error \<Rightarrow> 'a action" where
  "raise e w = (Inl e, w)"

text \<open>Sequencing: an exception of the first statement ends the sequence, since the
  script has no \<^verbatim>\<open>try\<close>.\<close>

definition then_do :: "'a action \<Rightarrow> ('a \<Rightarrow> 'b action) \<Rightarrow> 'b action" where
  "then_do m f w = (case m w of (Inl e, w') \<Rightarrow> (Inl e, w') | (Inr a, w') \<Rightarrow> f a w')"

definition lift :: "error + 'a \<Rightarrow> 'a action" where
  "lift r = (case r of Inl e \<Rightarrow> raise e | Inr a \<Rightarrow> return a)"

text \<open>A library call ends with its result or its exception, and is recorded with it.\<close>

definition finish :: "call \<Rightarrow> error + 'a \<Rightarrow> 'a action" where
  "finish c r w =
     (r, w\<lparr>calls := calls w @ [(c, case r of Inl e \<Rightarrow> Some e | Inr _ \<Rightarrow> None)]\<rparr>)"

definition print :: "line \<Rightarrow> unit action" where
  "print l w = (Inr (), w\<lparr>stdout := stdout w @ [l]\<rparr>)"

text \<open>\<^verbatim>\<open>Image.open(p)\<close>\<close>

definition image_open :: "env \<Rightarrow> path \<Rightarrow> image action" where
  "image_open en p w =
     finish (ImageOpen p)
       (case files w p of
          None \<Rightarrow> Inl FileNotFoundError
        | Some bs \<Rightarrow>
            (case decode en bs of
               None \<Rightarrow> Inl UnidentifiedImageError
             | Some img \<Rightarrow> Inr img)) w"

text \<open>\<^verbatim>\<open>img.save(p, 'PNG', optimize=o, quality=q)\<close>: the file is replaced by the
  encoding of the image; a path that cannot be opened for writing raises \<^verbatim>\<open>OSError\<close>
  and leaves the files as they are.\<close>

definition image_save :: "env \<Rightarrow> image \<Rightarrow> path \<Rightarrow> bool \<Rightarrow> nat \<Rightarrow> unit action" where
  "image_save en img p opt q w =
     (if writable en (length (calls w)) p
      then finish (Save img p opt q) (Inr ())
             (w\<lparr>files := (files w)(p \<mapsto> encode en img opt q)\<rparr>)
      else finish (Save img p opt q) (Inl OSError) w)"

text \<open>\<^verbatim>\<open>os.path.getsize(p)\<close>\<close>

definition getsize :: "path \<Rightarrow> int action" where
  "getsize p w =
     finish (GetSize p)
       (case files w p of
          None \<Rightarrow> Inl FileNotFoundError
        | Some bs \<Rightarrow> Inr (int (length bs))) w"

text \<open>\<^verbatim>\<open>img.resize(size, Image.Resampling.LANCZOS)\<close>: a new image of the mode of the
  old one and of the size asked for; the library raises \<^verbatim>\<open>ValueError\<close> for a size
  with a dimension below one.\<close>

definition image_resize :: "env \<Rightarrow> image \<Rightarrow> int \<times> int \<Rightarrow> image action" where
  "image_resize en img sz =
     finish (Resize img sz)
       (if fst sz < 1 \<or> snd sz < 1 then Inl ValueError
        else Inr \<lparr>width = fst sz, height = snd sz, mode = mode img,
                  pixels = lanczos en img sz\<rparr>)"

text \<open>\<^verbatim>\<open>shutil.copy(src, dst)\<close>: the destination is created or overwritten with the
  bytes of the source.\<close>

definition shutil_copy :: "env \<Rightarrow> path \<Rightarrow> path \<Rightarrow> unit action" where
  "shutil_copy en src dst w =
     (case files w src of
        None \<Rightarrow> finish (Copy src dst) (Inl FileNotFoundError) w
      | Some bs \<Rightarrow>
          if writable en (length (calls w)) dst
          then finish (Copy src dst) (Inr ()) (w\<lparr>files := (files w)(dst \<mapsto> bs)\<rparr>)
          else finish (Copy src dst) (Inl OSError) w)"

section \<open>The script\<close>

definition logo_original :: path where
  "logo_original = ''logo_original.png''"

definition logo_optimized :: path where
  "logo_optimized = ''logo_optimized.png''"

definition downloads :: path where
  "downloads = ''/mnt/c/Users/bsamm/Downloads/logo_optimized.png''"

text \<open>\<^verbatim>\<open>os.path.getsize(p) / 1024 / 1024\<close>, applied to the size read.\<close>

definition mib :: "int \<Rightarrow> error + pyfloat" where
  "mib n = (case int_truediv n 1024 of
              Inl e \<Rightarrow> Inl e
            | Inr x \<Rightarrow> float_truediv_int x 1024)"

text \<open>\<^verbatim>\<open>int(d * 0.9)\<close>\<close>

definition scaled :: "int \<Rightarrow> error + int" where
  "scaled d = (case int_mul_float d nine_tenths of
                 Inl e \<Rightarrow> Inl e
               | Inr x \<Rightarrow> int_of_float x)"

text \<open>\<^verbatim>\<open>new_size = (int(img.width * 0.9), int(img.height * 0.9))\<close>\<close>

definition new_size :: "image \<Rightarrow> error + int \<times> int" where
  "new_size img =
     (case scaled (width img) of
        Inl e \<Rightarrow> Inl e
      | Inr nw \<Rightarrow>
          (case scaled (height img) of
             Inl e \<Rightarrow> Inl e
           | Inr nh \<Rightarrow> Inr (nw, nh)))"

text \<open>Method 3 (lines 27 to 31): the aggressive resize.\<close>

definition method3 :: "env \<Rightarrow> image \<Rightarrow> unit action" where
  "method3 en img =
     then_do (image_resize en img (800, 800)) (\<lambda>img_resized.
     then_do (image_save en img_resized logo_optimized True 80) (\<lambda>_.
     then_do (getsize logo_optimized) (\<lambda>n.
     then_do (lift (mib n)) (\<lambda>size3.
     print (ResizedTo (800, 800) size3)))))"

text \<open>Method 2 (lines 19 to 31): the resize to nine tenths, and Method 3 if the file
  is still too large.\<close>

definition method2 :: "env \<Rightarrow> image \<Rightarrow> unit action" where
  "method2 en img =
     then_do (lift (new_size img)) (\<lambda>sz.
     then_do (image_resize en img sz) (\<lambda>img_resized.
     then_do (image_save en img_resized logo_optimized True 85) (\<lambda>_.
     then_do (getsize logo_optimized) (\<lambda>n.
     then_do (lift (mib n)) (\<lambda>size2.
     then_do (print (ResizedTo sz size2)) (\<lambda>_.
     if float_ge size2 (Fin 1) then method3 en img else return ()))))))"

text \<open>The whole script, lines 6 to 36.\<close>

definition optimize_logo :: "env \<Rightarrow> unit action" where
  "optimize_logo en =
     then_do (image_open en logo_original) (\<lambda>img.
     then_do (getsize logo_original) (\<lambda>n0.
     then_do (lift (mib n0)) (\<lambda>size0.
     then_do (print (OriginalSize size0)) (\<lambda>_.
     then_do (print (OriginalDimensions (size_of img))) (\<lambda>_.
     then_do (print (OriginalMode (mode img))) (\<lambda>_.
     then_do (image_save en img logo_optimized True 85) (\<lambda>_.
     then_do (getsize logo_optimized) (\<lambda>n1.
     then_do (lift (mib n1)) (\<lambda>size1.
     then_do (print (OptimizedSize size1)) (\<lambda>_.
     then_do (if float_ge size1 (Fin 1) then method2 en img else return ()) (\<lambda>_.
     then_do (shutil_copy en logo_optimized downloads) (\<lambda>_.
     print SavedTo))))))))))))"

text \<open>The interpreter around the script: an exception that reaches the top level is
  reported as a traceback and the process exits with status 1, otherwise with status 0.\<close>

record outcome =
  exit_status :: nat
  traceback :: "error option"
  final :: world

definition python3 :: "env \<Rightarrow> world \<Rightarrow> outcome" where
  "python3 en w =
     (case optimize_logo en w of
        (Inl e, w') \<Rightarrow> \<lparr>exit_status = 1, traceback = Some e, final = w'\<rparr>
      | (Inr _, w') \<Rightarrow> \<lparr>exit_status = 0, traceback = None, final = w'\<rparr>)"

section \<open>Rounding: bounds by representable numbers\<close>

lemma rne_floor: "\<lfloor>t\<rfloor> \<le> rne t"
  by (simp add: rne_def Let_def)

lemma rne_ceiling: "rne t \<le> \<lceil>t\<rceil>"
proof (cases "t = of_int \<lfloor>t\<rfloor>")
  case True
  then have "rne t = \<lfloor>t\<rfloor>" by (simp add: rne_def Let_def)
  then show ?thesis by (simp add: floor_le_ceiling)
next
  case False
  then have "\<lceil>t\<rceil> = \<lfloor>t\<rfloor> + 1"
    by (metis ceiling_altdef)
  moreover have "rne t \<le> \<lfloor>t\<rfloor> + 1" by (simp add: rne_def Let_def)
  ultimately show ?thesis by simp
qed

lemma int_le_rne: "of_int j \<le> t \<Longrightarrow> j \<le> rne t"
proof -
  assume "of_int j \<le> t"
  then have "j \<le> \<lfloor>t\<rfloor>" by (simp add: le_floor_iff)
  with rne_floor [of t] show ?thesis by linarith
qed

lemma rne_le_int: "t \<le> of_int j \<Longrightarrow> rne t \<le> j"
proof -
  assume "t \<le> of_int j"
  then have "\<lceil>t\<rceil> \<le> j" by (simp add: ceiling_le_iff)
  with rne_ceiling [of t] show ?thesis by linarith
qed

lemma binade_le:
  assumes "0 < x"
  shows "2 powi binade x \<le> x"
proof -
  obtain a b where q: "quotient_of x = (a, b)" by (cases "quotient_of x")
  then have b: "0 < b" and x: "x = of_int a / of_int b"
    using quotient_of_denom_pos quotient_of_div by blast+
  with assms have a: "0 < a"
    by (simp add: zero_less_divide_iff)
  let ?d = "bitlen a - bitlen b"
  show ?thesis
  proof (cases "2 powi ?d \<le> x")
    case True
    then show ?thesis by (simp add: binade_def q Let_def)
  next
    case False
    have la: "1 \<le> bitlen a" using a by (simp add: bitlen_alt_def)
    have lb: "0 \<le> bitlen b" by (rule bitlen_nonneg)
    have "(2::int) ^ nat (bitlen a - 1) \<le> a" using bitlen_bounds [OF a] by simp
    then have "(of_int ((2::int) ^ nat (bitlen a - 1)) :: rat) \<le> of_int a"
      by (simp only: of_int_le_iff)
    then have A: "(2::rat) powi (bitlen a - 1) \<le> of_int a"
      using la by (simp add: power_int_def)
    have "b < 2 ^ nat (bitlen b)" using bitlen_bounds [OF b] by simp
    then have "(of_int b :: rat) < of_int ((2::int) ^ nat (bitlen b))"
      by (simp only: of_int_less_iff)
    then have B: "(of_int b :: rat) < 2 powi (bitlen b)"
      using lb by (simp add: power_int_def)
    have "(2::rat) powi (?d - 1) = 2 powi (bitlen a - 1) / 2 powi (bitlen b)"
      by (simp add: power_int_diff)
    also have "\<dots> \<le> of_int a / 2 powi (bitlen b)"
      using A by (simp add: divide_right_mono)
    also have "\<dots> \<le> of_int a / of_int b"
      using B a b by (simp add: frac_le)
    finally have "(2::rat) powi (?d - 1) \<le> x" by (simp only: x)
    moreover have "binade x = ?d - 1"
      using False by (simp add: binade_def q Let_def)
    ultimately show ?thesis by simp
  qed
qed



lemma scaled_int:
  assumes "e \<le> k"
  shows "of_int m * 2 powi k = of_int (m * 2 ^ nat (k - e)) * (2::rat) powi e"
proof -
  have "(2::rat) powi k = 2 powi ((k - e) + e)" by simp
  also have "\<dots> = 2 powi (k - e) * 2 powi e" by (rule power_int_add) simp
  also have "(2::rat) powi (k - e) = 2 ^ nat (k - e)"
    using assms by (simp add: power_int_nonneg_exp)
  finally show ?thesis by simp
qed

lemma below_binade:
  assumes x: "0 < x" and m: "m < 2 ^ 53" and k: "k < binade x - 52"
  shows "of_int m * (2::rat) powi k < x"
    and "of_int m * (2::rat) powi k \<le> 2 ^ 52 * 2 powi (binade x - 52)"
proof -
  let ?e = "binade x - 52"
  have p: "(0::rat) < 2 powi k" by simp
  have "of_int m < (2::rat) ^ 53"
    using m by (metis of_int_less_iff of_int_numeral of_int_power)
  then have "of_int m * 2 powi k < 2 ^ 53 * (2::rat) powi k"
    using p by (simp add: mult_strict_right_mono)
  also have "(2::rat) powi k \<le> 2 powi (?e - 1)"
    using k by (intro power_int_increasing) simp_all
  then have "2 ^ 53 * (2::rat) powi k \<le> 2 ^ 53 * 2 powi (?e - 1)"
    by simp
  also have "2 ^ 53 * (2::rat) powi (?e - 1) = 2 ^ 52 * 2 powi ?e"
    by (simp add: power_int_diff)
  finally have lt: "of_int m * 2 powi k < 2 ^ 52 * (2::rat) powi ?e" .
  then show "of_int m * 2 powi k \<le> 2 ^ 52 * (2::rat) powi ?e" by simp
  have "2 ^ 52 * (2::rat) powi ?e = 2 powi binade x"
    by (simp add: power_int_diff)
  with lt binade_le [OF x] show "of_int m * 2 powi k < x" by simp
qed

lemma round_core_lower:
  assumes x: "0 < x" and m: "m < 2 ^ 53" and k: "- 1074 \<le> k"
    and le: "of_int m * 2 powi k \<le> x"
  shows "of_int m * (2::rat) powi k \<le> of_int (rne (x / 2 powi ulp_exp x)) * 2 powi ulp_exp x"
proof (cases "ulp_exp x \<le> k")
  case True
  let ?e = "ulp_exp x"
  let ?j = "m * 2 ^ nat (k - ?e)"
  have eq: "of_int m * 2 powi k = of_int ?j * (2::rat) powi ?e"
    by (rule scaled_int [OF True])
  have "of_int ?j * (2::rat) powi ?e \<le> x" using le eq by simp
  then have "of_int ?j \<le> x / 2 powi ?e"
    by (simp add: pos_le_divide_eq)
  then have "?j \<le> rne (x / 2 powi ?e)" by (rule int_le_rne)
  then have "(of_int ?j :: rat) \<le> of_int (rne (x / 2 powi ?e))"
    by (simp only: of_int_le_iff)
  then have "of_int ?j * (2::rat) powi ?e \<le> of_int (rne (x / 2 powi ?e)) * 2 powi ?e"
    by (simp add: mult_right_mono)
  then show ?thesis by (simp only: eq)
next
  case False
  then have e: "ulp_exp x = binade x - 52" and k': "k < binade x - 52"
    using k by (auto simp: ulp_exp_def max_def split: if_splits)
  let ?e = "binade x - 52"
  have "2 ^ 52 * (2::rat) powi ?e = 2 powi binade x"
    by (simp add: power_int_diff)
  with binade_le [OF x] have "2 ^ 52 * (2::rat) powi ?e \<le> x" by simp
  then have "of_int (2 ^ 52) \<le> x / 2 powi ?e"
    by (simp add: pos_le_divide_eq)
  then have "2 ^ 52 \<le> rne (x / 2 powi ?e)" by (rule int_le_rne)
  then have "(of_int (2 ^ 52) :: rat) \<le> of_int (rne (x / 2 powi ?e))"
    by (simp only: of_int_le_iff)
  then have "2 ^ 52 * (2::rat) powi ?e \<le> of_int (rne (x / 2 powi ?e)) * 2 powi ?e"
    by (simp add: mult_right_mono)
  with below_binade(2) [OF x m k'] show ?thesis unfolding e by (rule order_trans)
qed

lemma round_core_upper:
  assumes x: "0 < x" and m: "m < 2 ^ 53" and k: "- 1074 \<le> k"
    and le: "x \<le> of_int m * 2 powi k"
  shows "of_int (rne (x / 2 powi ulp_exp x)) * 2 powi ulp_exp x \<le> of_int m * (2::rat) powi k"
proof (cases "ulp_exp x \<le> k")
  case True
  let ?e = "ulp_exp x"
  let ?j = "m * 2 ^ nat (k - ?e)"
  have eq: "of_int m * 2 powi k = of_int ?j * (2::rat) powi ?e"
    by (rule scaled_int [OF True])
  have "x \<le> of_int ?j * (2::rat) powi ?e" using le eq by simp
  then have "x / 2 powi ?e \<le> of_int ?j"
    by (simp add: pos_divide_le_eq)
  then have "rne (x / 2 powi ?e) \<le> ?j" by (rule rne_le_int)
  then have "(of_int (rne (x / 2 powi ?e)) :: rat) \<le> of_int ?j"
    by (simp only: of_int_le_iff)
  then have "of_int (rne (x / 2 powi ?e)) * 2 powi ?e \<le> of_int ?j * (2::rat) powi ?e"
    by (simp add: mult_right_mono)
  then show ?thesis by (simp only: eq)
next
  case False
  then have k': "k < binade x - 52"
    using k by (auto simp: ulp_exp_def max_def split: if_splits)
  from below_binade(1) [OF x m k'] le show ?thesis by simp
qed


lemma binade_gt:
  assumes "0 < x"
  shows "x < 2 powi (binade x + 1)"
proof -
  obtain a b where q: "quotient_of x = (a, b)" by (cases "quotient_of x")
  then have b: "0 < b" and x: "x = of_int a / of_int b"
    using quotient_of_denom_pos quotient_of_div by blast+
  with assms have a: "0 < a"
    by (simp add: zero_less_divide_iff)
  let ?d = "bitlen a - bitlen b"
  show ?thesis
  proof (cases "2 powi ?d \<le> x")
    case False
    then have "binade x = ?d - 1" by (simp add: binade_def q Let_def)
    with False show ?thesis by simp
  next
    case True
    have la: "0 \<le> bitlen a" by (rule bitlen_nonneg)
    have lb: "1 \<le> bitlen b" using b by (simp add: bitlen_alt_def)
    have "a < 2 ^ nat (bitlen a)" using bitlen_bounds [OF a] by simp
    then have "(of_int a :: rat) < of_int ((2::int) ^ nat (bitlen a))"
      by (simp only: of_int_less_iff)
    then have A: "(of_int a :: rat) < 2 powi (bitlen a)"
      using la by (simp add: power_int_def)
    have "(2::int) ^ nat (bitlen b - 1) \<le> b" using bitlen_bounds [OF b] by simp
    then have "(of_int ((2::int) ^ nat (bitlen b - 1)) :: rat) \<le> of_int b"
      by (simp only: of_int_le_iff)
    then have B: "(2::rat) powi (bitlen b - 1) \<le> of_int b"
      using lb by (simp add: power_int_def)
    have "of_int a / of_int b < 2 powi (bitlen a) / (of_int b :: rat)"
      using A b by (simp add: divide_strict_right_mono)
    also have "\<dots> \<le> 2 powi (bitlen a) / 2 powi (bitlen b - 1)"
      using B by (simp add: frac_le)
    also have "\<dots> = (2::rat) powi (?d + 1)"
      by (simp add: power_int_diff power_int_add)
    finally have "x < (2::rat) powi (?d + 1)" by (simp only: x)
    moreover have "binade x = ?d"
      using True by (simp add: binade_def q Let_def)
    ultimately show ?thesis by simp
  qed
qed

lemma two_powi_less_D:
  assumes "(2::rat) powi a < 2 powi b"
  shows "a < b"
proof (rule ccontr)
  assume "\<not> a < b"
  then have "b \<le> a" by simp
  then have "(2::rat) powi b \<le> 2 powi a"
    by (intro power_int_increasing) simp_all
  with assms show False by simp
qed

lemma binade_unique:
  assumes x: "0 < x" and lo: "2 powi e \<le> x" and hi: "x < 2 powi (e + 1)"
  shows "binade x = e"
proof -
  have "(2::rat) powi binade x < 2 powi (e + 1)"
    using binade_le [OF x] hi by (rule le_less_trans)
  then have "binade x < e + 1"
    by (rule two_powi_less_D)
  moreover have "(2::rat) powi e < 2 powi (binade x + 1)"
    using lo binade_gt [OF x] by (rule le_less_trans)
  then have "e < binade x + 1"
    by (rule two_powi_less_D)
  ultimately show ?thesis by simp
qed

lemma overflow_powi: "binary64_overflow = 2 powi 1024"
  by (simp add: binary64_overflow_def)

lemma in_range:
  assumes "m < 2 ^ 53" and "k \<le> 970"
  shows "of_int m * 2 powi k < binary64_overflow"
proof -
  have "(of_int m :: rat) < of_int (2 ^ 53)" using assms(1) by (simp only: of_int_less_iff)
  then have "(of_int m :: rat) < 2 powi 53" by simp
  then have "of_int m * (2::rat) powi k < 2 powi 53 * 2 powi k"
    by (simp add: mult_strict_right_mono)
  also have "\<dots> = 2 powi (53 + k)" by (simp add: power_int_add)
  also have "\<dots> < 2 powi 1024"
    using assms(2) by (intro power_int_strict_increasing) simp_all
  finally show ?thesis by (simp only: overflow_powi)
qed

lemma round_pos_eq:
  assumes "0 < x"
  shows "round_binary64 x =
           (if binary64_overflow \<le> of_int (rne (x / 2 powi ulp_exp x)) * 2 powi ulp_exp x then PInf
            else Fin (of_int (rne (x / 2 powi ulp_exp x)) * 2 powi ulp_exp x))"
  using assms by (simp add: round_binary64_def Let_def)

lemma round_lower:
  assumes "0 < x" and "m < 2 ^ 53" and "- 1074 \<le> k" and "of_int m * 2 powi k \<le> x"
  shows "float_ge (round_binary64 x) (Fin (of_int m * 2 powi k))"
  using round_core_lower [OF assms] by (simp add: round_pos_eq [OF assms(1)])

lemma round_upper:
  assumes "0 < x" and "m < 2 ^ 53" and "- 1074 \<le> k" and "x \<le> of_int m * 2 powi k"
    and "of_int m * 2 powi k < binary64_overflow"
  shows "\<exists>y. round_binary64 x = Fin y \<and> 0 \<le> y \<and> y \<le> of_int m * 2 powi k"
proof -
  let ?y = "of_int (rne (x / 2 powi ulp_exp x)) * (2::rat) powi ulp_exp x"
  have le: "?y \<le> of_int m * 2 powi k"
    by (rule round_core_upper [OF assms(1-4)])
  with assms(5) have "\<not> binary64_overflow \<le> ?y" by simp
  then have "round_binary64 x = Fin ?y" by (simp add: round_pos_eq [OF assms(1)])
  moreover have "0 \<le> x / 2 powi ulp_exp x" using assms(1) by simp
  then have "0 \<le> rne (x / 2 powi ulp_exp x)"
    using int_le_rne [of 0 "x / 2 powi ulp_exp x"] by simp
  then have "0 \<le> ?y" by simp
  ultimately show ?thesis using le by blast
qed

lemma round_exact:
  assumes "0 < m" and "m < 2 ^ 53" and "- 1074 \<le> k" and "of_int m * 2 powi k < binary64_overflow"
  shows "round_binary64 (of_int m * 2 powi k) = Fin (of_int m * 2 powi k)"
proof -
  let ?r = "of_int m * (2::rat) powi k"
  have pos: "0 < ?r" using assms(1) by simp
  obtain y where y: "round_binary64 ?r = Fin y" "y \<le> ?r"
    using round_upper [OF pos assms(2,3) order_refl assms(4)] by blast
  from round_lower [OF pos assms(2,3) order_refl] y have "?r \<le> y" by simp
  with y show ?thesis by simp
qed

lemma float_of_int_exact:
  assumes "0 < i" and "i < 2 ^ 53"
  shows "float_of_int i = Inr (of_int i)"
proof -
  have "of_int i * 2 powi 0 < binary64_overflow"
    using in_range [OF assms(2), of 0] by simp
  from round_exact [OF assms(1,2) _ this] show ?thesis
    by (simp add: float_of_int_def)
qed

lemma round_nonneg_result:
  assumes "0 < x"
  shows "round_binary64 x = PInf \<or> (\<exists>y. round_binary64 x = Fin y \<and> 0 \<le> y)"
proof -
  have "0 \<le> x / 2 powi ulp_exp x" using assms by simp
  then have "0 \<le> rne (x / 2 powi ulp_exp x)"
    using int_le_rne [of 0 "x / 2 powi ulp_exp x"] by simp
  then have "0 \<le> of_int (rne (x / 2 powi ulp_exp x)) * (2::rat) powi ulp_exp x" by simp
  then show ?thesis by (simp add: round_pos_eq [OF assms])
qed

section \<open>The size gate\<close>

lemma float_of_int_1024: "float_of_int 1024 = Inr 1024"
  using float_of_int_exact [of 1024] by simp

lemma div_1024_zero: "float_truediv_int (Fin 0) 1024 = Inr (Fin 0)"
  by (simp add: float_truediv_int_def float_of_int_1024 round_binary64_def)

lemma div_1024_small:
  assumes "0 < y" and "y \<le> 1048575 / 1024"
  shows "\<exists>z. float_truediv_int (Fin y) 1024 = Inr (Fin z) \<and> z < 1"
proof -
  have pos: "0 < y / 1024" using assms(1) by simp
  have "y / 1024 \<le> of_int 1048575 * 2 powi (- 20)"
    using assms(2) by (simp add: power_int_minus_divide)
  moreover have "of_int 1048575 * 2 powi (- 20) < binary64_overflow"
    by (rule in_range) simp_all
  ultimately obtain z where z: "round_binary64 (y / 1024) = Fin z"
      "z \<le> of_int 1048575 * 2 powi (- 20)"
    using round_upper [OF pos, of 1048575 "- 20"] by auto
  have "of_int 1048575 * (2::rat) powi (- 20) < 1"
    by (simp add: power_int_minus_divide)
  with z show ?thesis
    by (auto simp: float_truediv_int_def float_of_int_1024)
qed

lemma div_1024_large:
  assumes "1024 \<le> y"
  shows "\<exists>s. float_truediv_int (Fin y) 1024 = Inr s \<and> float_ge s (Fin 1)"
proof -
  have pos: "0 < y / 1024" using assms by simp
  have "of_int 1 * 2 powi 0 \<le> y / 1024" using assms by simp
  from round_lower [OF pos _ _ this] have "float_ge (round_binary64 (y / 1024)) (Fin 1)"
    by simp
  then show ?thesis by (simp add: float_truediv_int_def float_of_int_1024)
qed


lemma truediv_1024_pos:
  assumes "0 < n"
  shows "int_truediv n 1024 = (case round_binary64 (of_int n / 1024) of
            Fin y \<Rightarrow> Inr (Fin y) | _ \<Rightarrow> Inl OverflowError)"
  by (simp add: int_truediv_def)

lemma mib_zero: "mib 0 = Inr (Fin 0)"
  by (simp add: mib_def int_truediv_def round_binary64_def div_1024_zero)

lemma mib_below:
  assumes "0 < n" and "n < 1048576"
  shows "\<exists>z. mib n = Inr (Fin z) \<and> z < 1"
proof -
  let ?x = "of_int n / (1024::rat)"
  have pos: "0 < ?x" using assms(1) by simp
  have "n \<le> 1048575" using assms(2) by simp
  then have "(of_int n :: rat) \<le> of_int 1048575" by (simp only: of_int_le_iff)
  then have le: "?x \<le> of_int 1048575 * 2 powi (- 10)"
    by (simp add: power_int_minus_divide)
  have "of_int 1048575 * 2 powi (- 10) < binary64_overflow"
    by (rule in_range) simp_all
  from round_upper [OF pos _ _ le this]
  obtain y where y: "round_binary64 ?x = Fin y" "0 \<le> y" "y \<le> of_int 1048575 * 2 powi (- 10)"
    by auto
  have tr: "int_truediv n 1024 = Inr (Fin y)"
    by (simp add: truediv_1024_pos [OF assms(1)] y(1))
  show ?thesis
  proof (cases "y = 0")
    case True
    then show ?thesis by (simp add: mib_def tr div_1024_zero)
  next
    case False
    with y(2) have "0 < y" by simp
    moreover have "y \<le> 1048575 / 1024"
      using y(3) by (simp add: power_int_minus_divide)
    ultimately show ?thesis
      using div_1024_small [of y] by (simp add: mib_def tr)
  qed
qed

lemma mib_above:
  assumes "1048576 \<le> n"
  shows "(\<exists>s. mib n = Inr s \<and> float_ge s (Fin 1)) \<or> (mib n = Inl OverflowError \<and> 2 ^ 1024 \<le> n)"
proof -
  let ?x = "of_int n / (1024::rat)"
  have n: "0 < n" using assms by simp
  have "(of_int 1048576 :: rat) \<le> of_int n" using assms by (simp only: of_int_le_iff)
  then have ge: "of_int 1 * 2 powi 10 \<le> ?x" by simp
  then have pos: "0 < ?x" by simp
  have lower: "float_ge (round_binary64 ?x) (Fin (of_int 1 * 2 powi 10))"
    by (rule round_lower [OF pos _ _ ge]) simp_all
  from round_nonneg_result [OF pos] show ?thesis
  proof
    assume inf: "round_binary64 ?x = PInf"
    then have m: "mib n = Inl OverflowError"
      by (simp add: mib_def truediv_1024_pos [OF n])
    have "2 ^ 1024 \<le> n"
    proof (rule ccontr)
      assume "\<not> 2 ^ 1024 \<le> n"
      then have "n < 2 ^ 1024" by simp
      then have "(of_int n :: rat) < of_int (2 ^ 1024)" by (simp only: of_int_less_iff)
      also have "(of_int (2 ^ 1024) :: rat) = 2 powi 1014 * 1024" by simp
      finally have le: "?x \<le> of_int 1 * 2 powi 1014" by simp
      have "(2::rat) powi 1014 < 2 powi 1024"
        by (intro power_int_strict_increasing) simp_all
      then have "of_int 1 * 2 powi 1014 < binary64_overflow"
        by (simp only: overflow_powi of_int_1 mult_1)
      from round_upper [OF pos _ _ le this] inf show False by simp
    qed
    with m show ?thesis by simp
  next
    assume "\<exists>y. round_binary64 ?x = Fin y \<and> 0 \<le> y"
    then obtain y where y: "round_binary64 ?x = Fin y" by blast
    with lower have "1024 \<le> y" by simp
    from div_1024_large [OF this] show ?thesis
      by (simp add: mib_def truediv_1024_pos [OF n] y)
  qed
qed

text \<open>
  Claim C1. The size gate depends on the byte size alone. For every byte count \<open>n \<ge> 0\<close> the
  script computes \<^verbatim>\<open>n / 1024 / 1024\<close> in floating point and compares it with \<^verbatim>\<open>1.0\<close>;
  whenever the division yields a float, the comparison holds exactly when
  \<open>n \<ge> 1048576\<close>, with no discrepancy from rounding at or near the boundary. The division
  yields a float for every \<open>n\<close> below \<open>2 ^ 1024\<close>; the only other outcome is Python's
  \<^verbatim>\<open>OverflowError\<close> for an int too large to divide into a float, which no file size reaches.
\<close>

theorem size_gate_exact:
  assumes "0 \<le> n"
  shows "(\<exists>s. mib n = Inr s \<and> float_ge s (Fin 1) = (1048576 \<le> n))
         \<or> (mib n = Inl OverflowError \<and> 2 ^ 1024 \<le> n)"
proof -
  consider "n = 0" | "0 < n" "n < 1048576" | "1048576 \<le> n"
    using assms by linarith
  then show ?thesis
  proof cases
    case 1
    then show ?thesis by (simp add: mib_zero)
  next
    case 2
    from mib_below [OF 2] obtain z where "mib n = Inr (Fin z)" "z < 1" by blast
    with 2 show ?thesis by simp
  next
    case 3
    from mib_above [OF 3] 3 show ?thesis by auto
  qed
qed

theorem size_gate_exact_witness:
  "(0::int) \<le> 1048575 \<and> (0::int) \<le> 1048576
   \<and> (\<exists>s. mib 1048575 = Inr s \<and> \<not> float_ge s (Fin 1))
   \<and> (\<exists>s. mib 1048576 = Inr s \<and> float_ge s (Fin 1))"
  using size_gate_exact [of 1048575] size_gate_exact [of 1048576] by simp

section \<open>The scaled dimension\<close>

lemma rne_half: "of_int (rne t) \<le> t + 1 / 2"
proof -
  define f where "f = \<lfloor>t\<rfloor>"
  have "of_int f \<le> t" and "t < of_int f + 1"
    by (simp_all add: f_def) linarith
  then show ?thesis
    by (auto simp: rne_def Let_def simp flip: f_def)
qed

lemma round_error_upper:
  assumes x: "0 < x" and hi: "x < 2 powi e"
  shows "of_int (rne (x / 2 powi ulp_exp x)) * 2 powi ulp_exp x
           \<le> x + 2 powi (max (e - 53) (- 1074) - 1)"
proof -
  let ?u = "ulp_exp x"
  have "(2::rat) powi binade x < 2 powi e"
    using binade_le [OF x] hi by (rule le_less_trans)
  then have "binade x < e" by (rule two_powi_less_D)
  then have u: "?u \<le> max (e - 53) (- 1074)" by (simp add: ulp_exp_def)
  have "of_int (rne (x / 2 powi ?u)) * (2::rat) powi ?u \<le> (x / 2 powi ?u + 1 / 2) * 2 powi ?u"
    using rne_half [of "x / 2 powi ?u"] by (simp add: mult_right_mono)
  also have "\<dots> = x + 2 powi ?u / 2" by (simp add: algebra_simps)
  also have "2 powi ?u / 2 = (2::rat) powi (?u - 1)" by (simp add: power_int_diff)
  also have "(2::rat) powi (?u - 1) \<le> 2 powi (max (e - 53) (- 1074) - 1)"
    using u by (intro power_int_increasing) simp_all
  finally show ?thesis by simp
qed

lemma floor_numeral_div: "\<lfloor>numeral a / numeral b :: rat\<rfloor> = numeral a div numeral b"
  using floor_divide_of_int_eq [of "numeral a" "numeral b", where ?'a = rat] by simp

lemma round_eval:
  assumes x: "0 < x" and lo: "2 powi e \<le> x" and hi: "x < 2 powi (e + 1)" and e: "- 1022 \<le> e"
  shows "round_binary64 x =
           (if binary64_overflow \<le> of_int (rne (x / 2 powi (e - 52))) * 2 powi (e - 52) then PInf
            else Fin (of_int (rne (x / 2 powi (e - 52))) * 2 powi (e - 52)))"
proof -
  have "binade x = e" by (rule binade_unique [OF x lo hi])
  then have "ulp_exp x = e - 52" using e by (simp add: ulp_exp_def)
  then show ?thesis by (simp add: round_pos_eq [OF x])
qed

lemma nine_tenths_literal: "round_binary64 (9 / 10) = Fin nine_tenths"
  by (subst round_eval [where e = "- 1"])
     (simp_all add: nine_tenths_def rne_def Let_def binary64_overflow_def power_int_minus_divide
        floor_numeral_div)

lemma scaled_counter: "scaled 1250999896491811 = Inr 1125899906842630"
proof -
  have f: "float_of_int 1250999896491811 = Inr 1250999896491811"
    using float_of_int_exact [of 1250999896491811] by simp
  have "round_binary64 (1250999896491811 * nine_tenths) = Fin 1125899906842630"
    by (subst round_eval [where e = 50])
       (simp_all add: nine_tenths_def rne_def Let_def binary64_overflow_def power_int_minus_divide
        floor_numeral_div)
  then show ?thesis
    by (simp add: scaled_def int_mul_float_def f int_of_float_def)
qed

lemma floor_nine_tenths:
  fixes d :: int
  assumes "0 < d"
  shows "0 \<le> 9 * d div 10" and "9 * d div 10 < d"
    and "(9 * d div 10) * 10 \<le> 9 * d" and "9 * d \<le> (9 * d div 10) * 10 + 9"
  using assms by presburger+

lemma floor_nine_tenths_rat:
  fixes d :: int
  assumes "0 < d"
  shows "of_int (9 * d div 10) \<le> of_int d * (9 / 10 :: rat)"
    and "of_int d * (9 / 10 :: rat) \<le> of_int (9 * d div 10) + 9 / 10"
proof -
  let ?q = "9 * d div 10"
  have "(of_int (?q * 10) :: rat) \<le> of_int (9 * d)"
    using floor_nine_tenths(3) [OF assms] by (simp only: of_int_le_iff)
  then show "of_int ?q \<le> of_int d * (9 / 10 :: rat)" by simp
  have "(of_int (9 * d) :: rat) \<le> of_int (?q * 10 + 9)"
    using floor_nine_tenths(4) [OF assms] by (simp only: of_int_le_iff)
  then show "of_int d * (9 / 10 :: rat) \<le> of_int ?q + 9 / 10" by simp
qed

lemma nine_tenths_split:
  "x * nine_tenths = x * (9 / 10) + x * (1 / 45035996273704960)"
  by (simp add: nine_tenths_def algebra_simps)

lemma product_bounds:
  assumes d: "0 < d" and d50: "d \<le> 2 ^ 50"
  shows "of_int (9 * d div 10) \<le> of_int d * nine_tenths"
    and "of_int d * nine_tenths \<le> of_int (9 * d div 10) + 37 / 40"
    and "of_int d * nine_tenths < 2 powi 50"
proof -
  have dpos: "(0::rat) < of_int d" using d by simp
  have "(of_int d :: rat) \<le> of_int (2 ^ 50)" using d50 by (simp only: of_int_le_iff)
  then have dr: "(of_int d :: rat) \<le> 1125899906842624" by simp
  have t0: "0 \<le> of_int d * (1 / 45035996273704960 :: rat)" using dpos by simp
  have t1: "of_int d * (1 / 45035996273704960 :: rat) \<le> 1 / 40" using dr by simp
  note s = nine_tenths_split [of "of_int d"]
  show "of_int (9 * d div 10) \<le> of_int d * nine_tenths"
    using floor_nine_tenths_rat(1) [OF d] t0 unfolding s by linarith
  show "of_int d * nine_tenths \<le> of_int (9 * d div 10) + 37 / 40"
    using floor_nine_tenths_rat(2) [OF d] t1 unfolding s by linarith
  have "of_int d * (9 / 10 :: rat) \<le> 1125899906842624 * (9 / 10)" using dr by simp
  with t1 have "of_int d * nine_tenths < 1125899906842624" unfolding s by linarith
  then show "of_int d * nine_tenths < 2 powi 50" by simp
qed


lemma scaled_floor:
  assumes d: "0 < d" and d50: "d \<le> 2 ^ 50"
  shows "scaled d = Inr (9 * d div 10)"
proof -
  let ?q = "9 * d div 10"
  let ?x = "of_int d * nine_tenths"
  let ?y = "of_int (rne (?x / 2 powi ulp_exp ?x)) * (2::rat) powi ulp_exp ?x"
  have f: "float_of_int d = Inr (of_int d)"
    using d d50 by (intro float_of_int_exact) simp_all
  have q0: "0 \<le> ?q" by (rule floor_nine_tenths(1) [OF d])
  have qd: "?q < d" by (rule floor_nine_tenths(2) [OF d])
  with d50 have q53: "?q < 2 ^ 53" by simp
  have "0 < of_int d * (9 / 10 :: rat)" using d by simp
  with floor_nine_tenths_rat(2) [OF d] product_bounds(1) [OF d d50] q0
  have pos: "0 < ?x" by (simp add: nine_tenths_split)
  have lo: "of_int ?q * 2 powi 0 \<le> ?x"
    using product_bounds(1) [OF d d50] by simp
  from round_error_upper [OF pos product_bounds(3) [OF d d50]]
  have "?y \<le> ?x + 2 powi (- 4)" by simp
  then have "?y \<le> ?x + 1 / 16" by (simp add: power_int_minus_divide)
  with product_bounds(2) [OF d d50] have yhi: "?y < of_int ?q + 1" by linarith
  have ylo: "of_int ?q \<le> ?y"
    using round_core_lower [OF pos q53 _ lo] by simp
  have "(of_int ?q :: rat) < of_int (2 ^ 53)" using q53 by (simp only: of_int_less_iff)
  then have "(of_int ?q :: rat) + 1 \<le> 2 powi 54" by simp
  with yhi have "?y < 2 powi 54" by linarith
  also have "(2::rat) powi 54 < 2 powi 1024"
    by (intro power_int_strict_increasing) simp_all
  finally have "\<not> binary64_overflow \<le> ?y" by (simp only: overflow_powi not_le)
  then have r: "round_binary64 ?x = Fin ?y" by (simp add: round_pos_eq [OF pos])
  have fl: "\<lfloor>?y\<rfloor> = ?q" using ylo yhi by (intro floor_unique) simp_all
  have "(0::rat) \<le> of_int ?q" using q0 by simp
  with ylo have y0: "0 \<le> ?y" by linarith
  show ?thesis
    by (simp add: scaled_def int_mul_float_def f r int_of_float_def fl y0)
qed

end
